theory Spec2Isabelle
  imports Main
begin

section \<open>Python strings\<close>

text \<open>
  A Python \<open>str\<close> is modelled as a \<open>string\<close> (a list of \<open>char\<close>), each \<open>char\<close>
  standing for one code point below 256 (the Latin-1 range, which contains ASCII).
  The string methods the program uses are written out for that range.
\<close>

definition isspace :: "char \<Rightarrow> bool" where
  \<comment> \<open>\<open>str.isspace\<close> on one code point; the same set is what \<open>\s\<close> matches in \<open>re\<close>.\<close>
  "isspace c =
     (let n = (of_char c :: nat)
      in (9 \<le> n \<and> n \<le> 13) \<or> (28 \<le> n \<and> n \<le> 32) \<or> n = 133 \<or> n = 160)"

definition is_capital :: "char \<Rightarrow> bool" where
  \<comment> \<open>the code points that \<open>str.lower\<close> changes: A-Z and the Latin-1 capitals\<close>
  "is_capital c =
     (let n = (of_char c :: nat)
      in (65 \<le> n \<and> n \<le> 90) \<or> (192 \<le> n \<and> n \<le> 222 \<and> n \<noteq> 215))"

definition lower_char :: "char \<Rightarrow> char" where
  \<comment> \<open>\<open>str.lower\<close> on one code point: a capital moves up by 32, which in those ranges
      sets the bit of value 32.\<close>
  "lower_char c =
     (if is_capital c
      then (case c of Char b0 b1 b2 b3 b4 b5 b6 b7 \<Rightarrow> Char b0 b1 b2 b3 b4 True b6 b7)
      else c)"

definition lower :: "string \<Rightarrow> string" where
  "lower s = map lower_char s"

definition strip :: "string \<Rightarrow> string" where
  \<comment> \<open>\<open>str.strip()\<close> with no argument: white space goes from both ends.\<close>
  "strip s = rev (dropWhile isspace (rev (dropWhile isspace s)))"

definition startswith :: "string \<Rightarrow> string \<Rightarrow> bool" where
  \<comment> \<open>\<open>s.startswith(p)\<close>\<close>
  "startswith s p = (take (length p) s = p)"

fun contains :: "string \<Rightarrow> string \<Rightarrow> bool" where
  \<comment> \<open>\<open>k in s\<close>: the key occurs at some position of the text.\<close>
  "contains k [] = (k = [])"
| "contains k (c # cs) = (startswith (c # cs) k \<or> contains k cs)"

fun join :: "string \<Rightarrow> string list \<Rightarrow> string" where
  \<comment> \<open>\<open>sep.join(items)\<close>\<close>
  "join sep [] = []"
| "join sep [x] = x"
| "join sep (x # y # ys) = x @ sep @ join sep (y # ys)"

section \<open>Response formatter\<close>

definition default_intro :: string where
  "default_intro = ''Here's what I found:''"

definition format_list_items :: "string list \<Rightarrow> string \<Rightarrow> string" where
  \<comment> \<open>\<open>ResponseGenerator.format_list_items(items, intro)\<close>. On a non-empty list
      \<open>items[:-1]\<close> is \<open>butlast\<close> and \<open>items[-1]\<close> is \<open>last\<close>.\<close>
  "format_list_items items intro =
     (if items = [] then ''I didn't find any items.''
      else if length items = 1 then intro @ '' '' @ hd items @ ''.''
      else let formatted_items = join '', '' (butlast items) @ '', and '' @ last items
           in intro @ '' '' @ formatted_items @ ''.'')"

section \<open>Voice recogniser: wake word detection\<close>

text \<open>
  What the loop does that an observer can see is recorded as a list of events, in order:
  each blocking call of the recogniser's \<open>listen\<close> with the timeout it was given
  (\<open>None\<close> is Python's \<open>timeout=None\<close>: wait for speech without limit), each call of
  the hook \<open>on_wake_word_detected\<close>, the other observer hooks, each text handed to
  \<open>speak\<close>, and the one-second sleep of the loop's error branch.
\<close>

datatype event =
    Listen "nat option"
  | WakeAck
  | ListeningStarted
  | ListeningStopped
  | ProcessingStarted
  | ProcessingStopped
  | Speak string
  | Sleep

datatype exn = PyException string

text \<open>
  One attempt to capture audio is scripted by a \<open>capture\<close>: opening the microphone fails
  with an exception that \<open>listen_for_audio\<close> does not catch (\<open>MicFailure\<close>), no audio comes
  back (\<open>NoAudio\<close>: the wait timed out, or \<open>listen\<close> failed and the failure was logged),
  or audio comes back; the audio is identified with what the recognition service makes of
  it: \<open>Some\<close> transcript, or \<open>None\<close> when the service raises. The error counter and the
  ambient-noise adjustment of \<open>listen_for_audio\<close> change no result and are left out.
\<close>

datatype capture = MicFailure | NoAudio | Audio "string option"

definition wake_word :: string where
  "wake_word = ''nova''"

definition alternative_wake_words :: "string list" where
  "alternative_wake_words = [''hey nova'', ''hi nova'', ''hello nova'', ''hey nowa'', ''hi nowa'']"

definition candidates :: "string list" where
  \<comment> \<open>every phrase \<open>detect_wake_word_and_command\<close> tries as a prefix, in the order tried\<close>
  "candidates = wake_word # alternative_wake_words"

definition listen_for_audio :: "nat option \<Rightarrow> capture \<Rightarrow> event list \<times> (exn + string option option)" where
  "listen_for_audio timeout cap =
     (case cap of
        MicFailure \<Rightarrow> ([], Inl (PyException ''microphone''))
      | NoAudio \<Rightarrow> ([Listen timeout], Inr None)
      | Audio g \<Rightarrow> ([Listen timeout], Inr (Some g)))"

definition recognize_speech :: "string option option \<Rightarrow> string option" where
  "recognize_speech audio =
     (case audio of
        None \<Rightarrow> None
      | Some None \<Rightarrow> None
      | Some (Some text) \<Rightarrow> Some (lower text))"

fun any_phrase_in :: "string list \<Rightarrow> string \<Rightarrow> bool" where
  \<comment> \<open>the loop over the alternative phrases in \<open>detect_wake_word\<close>\<close>
  "any_phrase_in [] text_lower = False"
| "any_phrase_in (phrase # phrases) text_lower =
     (if contains phrase text_lower then True else any_phrase_in phrases text_lower)"

definition detect_wake_word :: "nat option \<Rightarrow> capture \<Rightarrow> event list \<times> (exn + bool)" where
  "detect_wake_word timeout cap =
     (case listen_for_audio timeout cap of
        (ev, Inl e) \<Rightarrow> (ev, Inl e)
      | (ev, Inr audio) \<Rightarrow>
          if audio = None then (ev, Inr False)
          else (case recognize_speech audio of
                  None \<Rightarrow> (ev, Inr False)
                | Some text \<Rightarrow>
                    if text = [] then (ev, Inr False)
                    else let text_lower = lower text
                         in if contains wake_word text_lower then (ev, Inr True)
                            else (ev, Inr (any_phrase_in alternative_wake_words text_lower))))"

definition listen_for_command :: "nat option \<Rightarrow> capture \<Rightarrow> event list \<times> (exn + string option)" where
  \<comment> \<open>the hook is called first, then the capture is made\<close>
  "listen_for_command timeout cap =
     (case listen_for_audio timeout cap of
        (ev, Inl e) \<Rightarrow> (WakeAck # ev, Inl e)
      | (ev, Inr audio) \<Rightarrow>
          if audio = None then (WakeAck # ev, Inr None)
          else (WakeAck # ev, Inr (recognize_speech audio)))"

fun first_phrase_command :: "string list \<Rightarrow> string \<Rightarrow> string option" where
  \<comment> \<open>the loop over the alternative phrases in \<open>detect_wake_word_and_command\<close>\<close>
  "first_phrase_command [] text_lower = None"
| "first_phrase_command (phrase # phrases) text_lower =
     (if startswith text_lower phrase \<and> strip (drop (length phrase) text_lower) \<noteq> []
      then Some (strip (drop (length phrase) text_lower))
      else first_phrase_command phrases text_lower)"

definition command_after_wake :: "string \<Rightarrow> string option" where
  \<comment> \<open>\<open>detect_wake_word_and_command\<close> from \<open>text_lower = text.lower()\<close> to its returns:
      the command found, or \<open>None\<close> where the source reaches its last two lines\<close>
  "command_after_wake text =
     (let text_lower = lower text
      in if startswith text_lower wake_word \<and> strip (drop (length wake_word) text_lower) \<noteq> []
         then Some (strip (drop (length wake_word) text_lower))
         else first_phrase_command alternative_wake_words text_lower)"

definition detect_wake_word_and_command :: "nat option \<Rightarrow> capture \<Rightarrow> event list \<times> (exn + string option)" where
  "detect_wake_word_and_command timeout cap =
     (case listen_for_audio timeout cap of
        (ev, Inl e) \<Rightarrow> (ev, Inl e)
      | (ev, Inr audio) \<Rightarrow>
          if audio = None then (ev, Inr None)
          else (case recognize_speech audio of
                  None \<Rightarrow> (ev, Inr None)
                | Some text \<Rightarrow>
                    if text = [] then (ev, Inr None)
                    else (case command_after_wake text of
                            Some command \<Rightarrow> (ev, Inr (Some command))
                          | None \<Rightarrow> (ev @ [WakeAck], Inr None))))"

section \<open>Command processor: wake word removal\<close>

definition remove_wake_word :: "string \<Rightarrow> string" where
  \<comment> \<open>\<open>CommandProcessor._remove_wake_word\<close>. The substitution is anchored at the start of
      the text and ignores case: it takes away the four letters and the longest run of
      commas and white space after them, once.\<close>
  "remove_wake_word command_text =
     (if startswith (lower command_text) (lower wake_word)
      then strip (dropWhile (\<lambda>c. c = CHR '','' \<or> isspace c) (drop (length wake_word) command_text))
      else command_text)"

section \<open>Regular expressions of the command patterns\<close>

text \<open>
  The patterns use literals, \<open>.\<close>, \<open>\s\<close>, sequence, alternation, the greedy \<open>*\<close>, \<open>+\<close>
  and \<open>?\<close>, and groups. \<open>rmatch r s caps\<close> lists, in the order in which a backtracking
  matcher tries them, the ways \<open>r\<close> can match at the start of \<open>s\<close>: each is what is left
  of \<open>s\<close> together with the groups captured so far. The first entry is the match Python
  reports at that position. All patterns are used with \<open>re.IGNORECASE\<close>, so a literal is
  compared in lower case. A group is labelled by its name, or by its number for a group
  without a name.
\<close>

datatype regex =
    Lit string
  | Dot
  | Space
  | Seq regex regex
  | Alt regex regex
  | Star regex
  | Opt regex
  | Group string regex

fun rmatch :: "regex \<Rightarrow> string \<Rightarrow> (string \<times> string) list \<Rightarrow> (string \<times> (string \<times> string) list) list" where
  "rmatch (Lit p) s caps =
     (if startswith (lower s) (lower p) then [(drop (length p) s, caps)] else [])"
| "rmatch Dot s caps =
     (case s of [] \<Rightarrow> [] | c # cs \<Rightarrow> if c = CHR 0x0A then [] else [(cs, caps)])"
| "rmatch Space s caps =
     (case s of [] \<Rightarrow> [] | c # cs \<Rightarrow> if isspace c then [(cs, caps)] else [])"
| "rmatch (Seq a b) s caps =
     concat (map (\<lambda>st. rmatch b (fst st) (snd st)) (rmatch a s caps))"
| "rmatch (Alt a b) s caps = rmatch a s caps @ rmatch b s caps"
| "rmatch (Star a) s caps =
     concat (map (\<lambda>st. if length (fst st) < length s then rmatch (Star a) (fst st) (snd st) else [])
                 (rmatch a s caps))
     @ [(s, caps)]"
| "rmatch (Opt a) s caps = rmatch a s caps @ [(s, caps)]"
| "rmatch (Group g a) s caps =
     map (\<lambda>st. (fst st, snd st @ [(g, take (length s - length (fst st)) s)])) (rmatch a s caps)"

definition Plus :: "regex \<Rightarrow> regex" where
  "Plus a = Seq a (Star a)"

fun seq :: "regex list \<Rightarrow> regex" where
  "seq [] = Lit []"
| "seq [a] = a"
| "seq (a # b # bs) = Seq a (seq (b # bs))"

fun alts :: "string list \<Rightarrow> regex" where
  \<comment> \<open>an alternation of literals, \<open>(a|b|c)\<close> without the group\<close>
  "alts [] = Alt (Lit []) (Lit [])"
| "alts [p] = Lit p"
| "alts (p # q # qs) = Alt (Lit p) (alts (q # qs))"

datatype match = Match (whole: string) (groups: "(string \<times> string) list")

definition match_at :: "regex \<Rightarrow> string \<Rightarrow> match option" where
  "match_at r s =
     (case rmatch r s [] of
        [] \<Rightarrow> None
      | st # _ \<Rightarrow> Some (Match (take (length s - length (fst st)) s) (snd st)))"

fun re_search :: "regex \<Rightarrow> string \<Rightarrow> match option" where
  \<comment> \<open>\<open>re.search\<close>: the match at the leftmost position that has one\<close>
  "re_search r [] = match_at r []"
| "re_search r (c # cs) =
     (case match_at r (c # cs) of Some m \<Rightarrow> Some m | None \<Rightarrow> re_search r cs)"

section \<open>Command processor\<close>

datatype builtin_handler =
    handle_hello
  | handle_time
  | handle_date
  | handle_help
  | handle_who_are_you
  | handle_what_can_you_do
  | handle_thank_you
  | handle_exit
  | handle_stop_listening

definition builtin_commands :: "(string \<times> builtin_handler) list" where
  \<comment> \<open>the dictionary, in its insertion order, which is the order its items are visited in\<close>
  "builtin_commands =
     [(''hello'', handle_hello),
      (''hi'', handle_hello),
      (''hey'', handle_hello),
      (''time'', handle_time),
      (''date'', handle_date),
      (''help'', handle_help),
      (''who are you'', handle_who_are_you),
      (''what can you do'', handle_what_can_you_do),
      (''thank you'', handle_thank_you),
      (''thanks'', handle_thank_you),
      (''exit'', handle_exit),
      (''quit'', handle_exit),
      (''stop listening'', handle_stop_listening)]"

datatype category = App | System | Network | Utility

definition machine :: regex where
  \<comment> \<open>\<open>(computer|pc|system)\<close>\<close>
  "machine = Group ''1'' (alts [''computer'', ''pc'', ''system''])"

definition command_patterns :: "(category \<times> regex list) list" where
  "command_patterns =
     [(App,
        [seq [Lit ''open'', Plus Space, Group ''app_name'' (Star Dot)],
         seq [Lit ''launch'', Plus Space, Group ''app_name'' (Star Dot)],
         seq [Lit ''start'', Plus Space, Group ''app_name'' (Star Dot)],
         seq [Lit ''run'', Plus Space, Group ''app_name'' (Star Dot)]]),
      (System,
        [seq [Group ''1'' (alts [''shutdown'', ''turn off'']), Plus Space,
              Group ''2'' (alts [''computer'', ''pc'', ''system''])],
         seq [Lit ''restart'', Plus Space, machine],
         seq [Lit ''lock'', Plus Space, machine],
         seq [Lit ''sleep'', Plus Space, machine],
         seq [Lit ''hibernate'', Plus Space, machine],
         seq [Lit ''log'', Opt Space, Lit ''out'']]),
      (Network,
        [seq [Lit ''turn'', Plus Space, Group ''1'' (alts [''on'', ''off'']), Plus Space,
              Group ''2'' (alts [''wifi'', ''wireless'', ''bluetooth''])],
         seq [Group ''1'' (alts [''show'', ''what is'', ''what's'']), Plus Space,
              Opt (Group ''2'' (Lit ''my'')), Star Space, Group ''3'' (Lit ''ip address'')],
         seq [Group ''1'' (alts [''connect'', ''disconnect'']), Plus Space,
              Group ''2'' (alts [''to'', ''from'']), Plus Space, Group ''network'' (Star Dot)]]),
      (Utility,
        [seq [Lit ''open'', Plus Space,
              Group ''1'' (alts [''control panel'', ''task manager'', ''file explorer''])],
         seq [Group ''1'' (alts [''show'', ''list'']), Plus Space,
              Group ''2'' (alts [''running processes'', ''cpu usage'', ''memory usage''])],
         seq [Group ''1'' (alts [''set'', ''adjust'']), Plus Space, Lit ''volume'', Plus Space,
              Group ''2'' (alts [''to'', ''up'', ''down'', ''mute''])]])]"

fun first_builtin :: "(string \<times> builtin_handler) list \<Rightarrow> string \<Rightarrow> builtin_handler option" where
  \<comment> \<open>the loop over the builtin commands in \<open>process\<close>\<close>
  "first_builtin [] text_lower = None"
| "first_builtin ((key, handler) # rest) text_lower =
     (if contains key text_lower then Some handler else first_builtin rest text_lower)"

fun first_pattern :: "regex list \<Rightarrow> string \<Rightarrow> match option" where
  \<comment> \<open>the inner loop of \<open>_categorize_command\<close>\<close>
  "first_pattern [] command_lower = None"
| "first_pattern (pattern # patterns) command_lower =
     (case re_search pattern command_lower of
        Some m \<Rightarrow> Some m
      | None \<Rightarrow> first_pattern patterns command_lower)"

fun scan_categories :: "(category \<times> regex list) list \<Rightarrow> string \<Rightarrow> (category \<times> match) option" where
  \<comment> \<open>the outer loop of \<open>_categorize_command\<close>\<close>
  "scan_categories [] command_lower = None"
| "scan_categories ((category, patterns) # rest) command_lower =
     (case first_pattern patterns command_lower of
        Some m \<Rightarrow> Some (category, m)
      | None \<Rightarrow> scan_categories rest command_lower)"

definition categorize_command :: "string \<Rightarrow> (category \<times> match) option" where
  "categorize_command command_text = scan_categories command_patterns (lower command_text)"

definition any_key_in :: "string list \<Rightarrow> string \<Rightarrow> bool" where
  \<comment> \<open>\<open>any(key in text for key in keys)\<close>\<close>
  "any_key_in keys text_lower = list_ex (\<lambda>key. contains key text_lower) keys"

text \<open>
  \<open>process\<close> is split in two: \<open>process_route\<close> decides which branch of the source is
  taken and with which arguments, \<open>process\<close> then calls what that branch calls.
\<close>

datatype route =
    Clarify
  | Builtin builtin_handler string
  | ToHandler category string "match option"
  | NotUnderstood string

definition process_route :: "string \<Rightarrow> route" where
  "process_route command_text0 =
     (if command_text0 = [] then Clarify
      else
        let command_text = remove_wake_word command_text0 in
        case first_builtin builtin_commands (lower command_text) of
          Some handler \<Rightarrow> Builtin handler command_text
        | None \<Rightarrow>
           (case categorize_command command_text of
              Some (category, m) \<Rightarrow> ToHandler category command_text (Some m)
            | None \<Rightarrow>
                if any_key_in [''open'', ''launch'', ''start'', ''run''] (lower command_text)
                then ToHandler App command_text None
                else if any_key_in [''shutdown'', ''restart'', ''lock'', ''sleep'', ''hibernate'', ''log out'']
                          (lower command_text)
                then ToHandler System command_text None
                else if any_key_in [''wifi'', ''wireless'', ''bluetooth'', ''ip address'', ''network'']
                          (lower command_text)
                then ToHandler Network command_text None
                else if any_key_in [''control panel'', ''task manager'', ''file explorer'', ''processes'', ''volume'']
                          (lower command_text)
                then ToHandler Utility command_text None
                else NotUnderstood command_text))"

section \<open>Responses\<close>

text \<open>
  What a response depends on beyond the command text is collected in an environment: the
  index \<open>random.choice\<close> draws, the clock as \<open>strftime\<close> formats it, whether the
  listening thread is alive and whether the caller runs on it (\<open>NovaAssistant.stop\<close> joins
  the listening thread, and Python's \<open>Thread.join\<close> raises \<open>RuntimeError\<close> when a thread
  joins itself), and the four category handlers, which act on the operating system and
  are taken as given: each returns a response text or raises.
\<close>

record env =
  choice :: nat
  clock_time :: string
  clock_date :: string
  thread_alive :: bool
  on_listening_thread :: bool
  command_handlers :: "category \<Rightarrow> string \<Rightarrow> match option \<Rightarrow> exn + string"

definition greetings :: "string list" where
  "greetings =
     [''Hello! I'm Nova, your virtual assistant.'',
      ''Hi there! Nova at your service.'',
      ''Greetings! Nova is ready to assist you.'',
      ''Hello! Nova is listening.'',
      ''Hi! I'm Nova, how can I help you today?'']"

definition thanks_responses :: "string list" where
  "thanks_responses =
     [''You're welcome!'', ''Happy to help!'', ''No problem at all!'', ''Anytime!'',
      ''Glad I could assist!'']"

definition random_choice :: "env \<Rightarrow> string list \<Rightarrow> string" where
  \<comment> \<open>\<open>random.choice\<close> on a non-empty list\<close>
  "random_choice e xs = xs ! (choice e mod length xs)"

definition get_random_greeting :: "env \<Rightarrow> string" where
  "get_random_greeting e = random_choice e greetings"

definition stop :: "env \<Rightarrow> exn + unit" where
  \<comment> \<open>\<open>NovaAssistant.stop\<close>: sets the stop flag and joins the listening thread for at most
      two seconds, when that thread is alive. Setting the flag shows in what later reads
      of the flag return.\<close>
  "stop e =
     (if thread_alive e \<and> on_listening_thread e
      then Inl (PyException ''cannot join current thread'')
      else Inr ())"

definition help_text :: string where
  "help_text =
     ''I can help you with various tasks. Try commands like:'' @ [CHR 0x0A] @
     ''- Open Chrome'' @ [CHR 0x0A] @
     ''- What time is it?'' @ [CHR 0x0A] @
     ''- Shutdown my computer'' @ [CHR 0x0A] @
     ''- Turn off WiFi'' @ [CHR 0x0A] @
     ''- Show my IP address'' @ [CHR 0x0A] @
     ''- Open Task Manager''"

fun run_builtin :: "env \<Rightarrow> builtin_handler \<Rightarrow> string \<Rightarrow> exn + string" where
  "run_builtin e handle_hello command_text = Inr (get_random_greeting e)"
| "run_builtin e handle_time command_text = Inr (''The current time is '' @ clock_time e @ ''.'')"
| "run_builtin e handle_date command_text = Inr (''Today is '' @ clock_date e @ ''.'')"
| "run_builtin e handle_help command_text = Inr help_text"
| "run_builtin e handle_who_are_you command_text =
     Inr (''I'm Nova, your personal AI assistant. I'm designed to help you '' @
          ''control your computer, open applications, and provide information through voice commands.'')"
| "run_builtin e handle_what_can_you_do command_text =
     Inr (''I can help you with various tasks on your computer. I can open applications, '' @
          ''control system functions like shutdown or restart, manage network settings, '' @
          ''and open system utilities. Just tell me what you need!'')"
| "run_builtin e handle_thank_you command_text = Inr (random_choice e thanks_responses)"
| "run_builtin e handle_exit command_text =
     (case stop e of Inl x \<Rightarrow> Inl x | Inr _ \<Rightarrow> Inr ''Goodbye! Nova is shutting down.'')"
| "run_builtin e handle_stop_listening command_text =
     (case stop e of
        Inl x \<Rightarrow> Inl x
      | Inr _ \<Rightarrow> Inr ''I'll stop listening now. Call my name if you need me again.'')"

definition clarification :: string where
  "clarification = ''I didn't catch that. Can you please repeat?''"

definition not_understood :: "string \<Rightarrow> string" where
  "not_understood command_text =
     ''I'm not sure how to handle '' @ [CHR 0x27] @ command_text @ [CHR 0x27] @
     ''. Try asking for help to see what I can do.''"

definition process :: "env \<Rightarrow> string \<Rightarrow> exn + string" where
  \<comment> \<open>\<open>CommandProcessor.process\<close>\<close>
  "process e command_text0 =
     (case process_route command_text0 of
        Clarify \<Rightarrow> Inr clarification
      | Builtin handler command_text \<Rightarrow> run_builtin e handler command_text
      | ToHandler category command_text m \<Rightarrow> command_handlers e category command_text m
      | NotUnderstood command_text \<Rightarrow> Inr (not_understood command_text))"

section \<open>Assistant: the listening loop\<close>

definition speak :: "string \<Rightarrow> event list" where
  \<comment> \<open>\<open>NovaAssistant.speak\<close>: nothing for an empty text; otherwise the observer is told and
      the text is spoken on a thread of its own\<close>
  "speak text = (if text = [] then [] else [Speak text])"

definition apology :: string where
  "apology = ''I'm sorry, I encountered an error while processing your request.''"

definition process_command :: "env \<Rightarrow> string \<Rightarrow> event list \<times> (exn + unit)" where
  \<comment> \<open>\<open>NovaAssistant.process_command\<close>: the \<open>try\<close> catches every exception of \<open>process\<close>;
      the \<open>finally\<close> part runs in both cases\<close>
  "process_command e command_text =
     (case process e command_text of
        Inr response \<Rightarrow> ([ProcessingStarted] @ speak response @ [ProcessingStopped], Inr ())
      | Inl x \<Rightarrow> ([ProcessingStarted] @ speak apology @ [ProcessingStopped], Inr ()))"

text \<open>
  One pass through the body of the loop is scripted by what the three possible captures
  bring and by what the stop flag reads: at the top of the loop, after the first capture
  and after the second. The flag is set from another thread, so every combination of
  reads is allowed for.
\<close>

record script =
  stop_top :: bool
  cap1 :: capture
  stop1 :: bool
  cap2 :: capture
  stop2 :: bool
  cap3 :: capture

definition truthy :: "string option \<Rightarrow> bool" where
  \<comment> \<open>Python's \<open>if command:\<close> on a string or \<open>None\<close>\<close>
  "truthy command = (case command of None \<Rightarrow> False | Some c \<Rightarrow> c \<noteq> [])"

definition follow_up :: "env \<Rightarrow> script \<Rightarrow> event list" where
  \<comment> \<open>the body of \<open>if wake_word_detected and not stop\<close>, with the \<open>except\<close> of the loop\<close>
  "follow_up e sc =
     [ListeningStarted, WakeAck] @
     (case listen_for_command (Some 5) (cap3 sc) of
        (ev3, Inl x) \<Rightarrow> ev3 @ [Sleep]
      | (ev3, Inr command) \<Rightarrow>
          if truthy command
          then (case process_command e (the command) of
                  (evp, Inl x) \<Rightarrow> ev3 @ evp @ [Sleep]
                | (evp, Inr _) \<Rightarrow> ev3 @ evp @ [ListeningStopped])
          else ev3 @ [ListeningStopped])"

definition iteration :: "env \<Rightarrow> script \<Rightarrow> event list" where
  \<comment> \<open>the body of the \<open>while\<close> of \<open>listen_continuously\<close>, with its \<open>try\<close> and \<open>except\<close>\<close>
  "iteration e sc =
     (case detect_wake_word_and_command None (cap1 sc) of
        (ev1, Inl x) \<Rightarrow> ev1 @ [Sleep]
      | (ev1, Inr command) \<Rightarrow>
          if truthy command \<and> \<not> stop1 sc
          then (case process_command e (the command) of
                  (evp, Inl x) \<Rightarrow> ev1 @ evp @ [Sleep]
                | (evp, Inr _) \<Rightarrow> ev1 @ evp)
          else (case detect_wake_word None (cap2 sc) of
                  (ev2, Inl x) \<Rightarrow> ev1 @ ev2 @ [Sleep]
                | (ev2, Inr wake_word_detected) \<Rightarrow>
                    if wake_word_detected \<and> \<not> stop2 sc
                    then ev1 @ ev2 @ follow_up e sc
                    else ev1 @ ev2))"

fun listen_continuously :: "env \<Rightarrow> script list \<Rightarrow> event list \<times> bool" where
  \<comment> \<open>the loop, run on the scripts of its successive passes; the flag tells whether the
      loop has ended (it read the stop flag as set) or is still running when the scripts
      end\<close>
  "listen_continuously e [] = ([], False)"
| "listen_continuously e (sc # scs) =
     (if stop_top sc then ([], True)
      else (iteration e sc @ fst (listen_continuously e scs), snd (listen_continuously e scs)))"

definition test_env :: env where
  \<comment> \<open>an environment for evaluating examples: every category handler answers \<open>ok\<close>\<close>
  "test_env =
     \<lparr>choice = 0, clock_time = ''09:00 AM'', clock_date = ''Monday, January 01, 2024'',
      thread_alive = True, on_listening_thread = True,
      command_handlers = (\<lambda>category command_text m. Inr ''ok'')\<rparr>"

definition failing_env :: env where
  \<comment> \<open>an environment for evaluating examples: every category handler raises\<close>
  "failing_env =
     \<lparr>choice = 0, clock_time = ''09:00 AM'', clock_date = ''Monday, January 01, 2024'',
      thread_alive = True, on_listening_thread = True,
      command_handlers = (\<lambda>category command_text m. Inl (PyException ''handler failed''))\<rparr>"

section \<open>Facts about the string operations\<close>

lemma lower_char_adds_32:
  "is_capital c \<Longrightarrow> of_char (lower_char c) = (of_char c :: nat) + 32"
  by (cases c) (auto simp add: lower_char_def is_capital_def of_bool_def split: if_splits)

lemma lower_char_idem: "lower_char (lower_char c) = lower_char c"
  by (cases c) (simp add: lower_char_def is_capital_def)

lemma lower_idem: "lower (lower s) = lower s"
  by (simp add: lower_def lower_char_idem)

lemma lower_append: "lower (a @ b) = lower a @ lower b"
  by (simp add: lower_def)

lemma isspace_space: "isspace CHR '' ''"
  by (simp add: isspace_def)

lemma strip_space_Cons: "isspace c \<Longrightarrow> strip (c # s) = strip s"
  by (simp add: strip_def)

lemma startswith_Nil: "startswith t [] = True"
  by (simp add: startswith_def)

lemma startswith_Cons:
  "startswith t (c # p) = (case t of [] \<Rightarrow> False | x # xs \<Rightarrow> x = c \<and> startswith xs p)"
  by (cases t) (auto simp: startswith_def)

lemma rstrip_split: "e = rev (dropWhile P (rev e)) @ rev (takeWhile P (rev e))"
proof -
  have "rev (takeWhile P (rev e) @ dropWhile P (rev e)) = rev (rev e)"
    by (simp only: takeWhile_dropWhile_id)
  then show ?thesis by (simp only: rev_append rev_rev_ident)
qed

lemma strip_split:
  "\<exists>a b. a @ strip x @ b = x \<and> (\<forall>c \<in> set a. isspace c) \<and> (\<forall>c \<in> set b. isspace c)"
proof -
  let ?m = "dropWhile isspace x"
  have 1: "takeWhile isspace x @ ?m = x" by simp
  have 2: "strip x @ rev (takeWhile isspace (rev ?m)) = ?m"
    unfolding strip_def by (rule rstrip_split [symmetric])
  have 3: "\<forall>c \<in> set (takeWhile isspace x). isspace c"
    by (auto dest: set_takeWhileD)
  have 4: "\<forall>c \<in> set (rev (takeWhile isspace (rev ?m))). isspace c"
    by (auto dest: set_takeWhileD)
  have "takeWhile isspace x @ strip x @ rev (takeWhile isspace (rev ?m)) = x"
    by (simp only: 2 1)
  with 3 4 show ?thesis by blast
qed

lemma strip_ends:
  assumes "strip x \<noteq> []"
  shows "\<not> isspace (hd (strip x)) \<and> \<not> isspace (last (strip x))"
proof -
  let ?m = "dropWhile isspace x"
  let ?k = "dropWhile isspace (rev ?m)"
  from assms have k: "?k \<noteq> []" by (simp add: strip_def)
  have m: "?m \<noteq> []"
  proof
    assume "?m = []"
    then have "?k = []" by (simp only: rev.simps(1) dropWhile.simps(1))
    with k show False by (rule notE)
  qed
  have l: "last (strip x) = hd ?k" using k by (simp add: strip_def last_rev)
  have "\<not> isspace (hd ?k)" using k by (rule hd_dropWhile)
  with l have A: "\<not> isspace (last (strip x))" by simp
  have "?m = strip x @ rev (takeWhile isspace (rev ?m))"
    unfolding strip_def by (rule rstrip_split)
  then have "hd ?m = hd (strip x @ rev (takeWhile isspace (rev ?m)))" by (rule arg_cong)
  also have "\<dots> = hd (strip x)" using assms by simp
  finally have "hd ?m = hd (strip x)" .
  moreover have "\<not> isspace (hd ?m)" using m by (rule hd_dropWhile)
  ultimately show ?thesis using A by simp
qed

lemma strip_hd:
  assumes "strip x \<noteq> []"
  shows "hd (strip x) = hd (dropWhile isspace x)"
proof -
  let ?m = "dropWhile isspace x"
  have "?m = strip x @ rev (takeWhile isspace (rev ?m))"
    unfolding strip_def by (rule rstrip_split)
  then have "hd ?m = hd (strip x @ rev (takeWhile isspace (rev ?m)))" by (rule arg_cong)
  also have "\<dots> = hd (strip x)" using assms by simp
  finally show ?thesis by (rule sym)
qed


section \<open>Properties of the wake word detection\<close>

lemma candidates_unique:
  assumes "p \<in> set candidates" "q \<in> set candidates" "startswith t p" "startswith t q"
  shows "p = q"
  using assms
  by (auto simp: candidates_def wake_word_def alternative_wake_words_def startswith_Cons startswith_Nil
           split: list.splits)

lemma first_phrase_command_Some:
  "first_phrase_command ps t = Some c \<Longrightarrow>
     \<exists>p \<in> set ps. startswith t p \<and> c = strip (drop (length p) t) \<and> c \<noteq> []"
  by (induction ps) (auto split: if_splits)

lemma command_after_alternate:
  assumes "W \<in> set alternative_wake_words"
  shows "command_after_wake (W @ '' '' @ lc) =
           (if strip (lower lc) \<noteq> [] then Some (strip (lower lc)) else None)"
  using assms
  by (auto simp: alternative_wake_words_def command_after_wake_def wake_word_def
        lower_append startswith_Cons startswith_Nil strip_space_Cons isspace_space
        lower_def lower_char_def is_capital_def)

lemma detect_on_text:
  "text \<noteq> [] \<Longrightarrow>
   detect_wake_word_and_command timeout (Audio (Some text)) =
     (case command_after_wake (lower text) of
        Some command \<Rightarrow> ([Listen timeout], Inr (Some command))
      | None \<Rightarrow> ([Listen timeout, WakeAck], Inr None))"
  by (simp add: detect_wake_word_and_command_def listen_for_audio_def recognize_speech_def
        lower_def split: option.splits)

lemma lower_alternate: "W \<in> set alternative_wake_words \<Longrightarrow> lower W = W"
  by (auto simp: alternative_wake_words_def lower_def lower_char_def is_capital_def)

lemma command_after_wake_Some:
  assumes "command_after_wake text = Some c"
  shows "\<exists>p \<in> set candidates. startswith (lower text) p \<and> c = strip (drop (length p) (lower text))"
proof (cases "startswith (lower text) wake_word \<and> strip (drop (length wake_word) (lower text)) \<noteq> []")
  case True
  then have "c = strip (drop (length wake_word) (lower text))"
    using assms by (simp add: command_after_wake_def Let_def)
  with True show ?thesis by (auto simp: candidates_def)
next
  case False
  then have "first_phrase_command alternative_wake_words (lower text) = Some c"
    using assms by (auto simp: command_after_wake_def Let_def split: if_splits)
  from first_phrase_command_Some [OF this] show ?thesis by (auto simp: candidates_def)
qed

text \<open>
  C1, as the code has it. For every alternate wake phrase \<open>W\<close> and every text \<open>C\<close>, the
  utterance \<open>W\<close>, a space, \<open>C\<close> gives the lower-cased, trimmed \<open>C\<close> when that is not
  empty, and otherwise no command and one call of the wake hook; so a \<open>C\<close> that is not
  empty, already in lower case and already trimmed comes back exactly. Whenever a command
  is returned, it is the trimmed rest after a candidate phrase that is a prefix of the
  lower-cased text, and no other candidate is a prefix of it: the phrase stripped is the
  only matching one, hence the longest.
\<close>

theorem detect_wake_word_and_command_alternate:
  "(W \<in> set alternative_wake_words \<longrightarrow>
      detect_wake_word_and_command timeout (Audio (Some (W @ '' '' @ C))) =
        (if strip (lower C) \<noteq> [] then ([Listen timeout], Inr (Some (strip (lower C))))
         else ([Listen timeout, WakeAck], Inr None)))
   \<and> (W \<in> set alternative_wake_words \<and> C \<noteq> [] \<and> lower C = C \<and> strip C = C \<longrightarrow>
      detect_wake_word_and_command timeout (Audio (Some (W @ '' '' @ C))) =
        ([Listen timeout], Inr (Some C)))
   \<and> (command_after_wake text = Some c \<longrightarrow>
        (\<exists>p \<in> set candidates. startswith (lower text) p
            \<and> c = strip (drop (length p) (lower text))
            \<and> (\<forall>q \<in> set candidates. startswith (lower text) q \<longrightarrow> q = p)))"
proof -
  have one: "detect_wake_word_and_command timeout (Audio (Some (W @ '' '' @ C))) =
        (if strip (lower C) \<noteq> [] then ([Listen timeout], Inr (Some (strip (lower C))))
         else ([Listen timeout, WakeAck], Inr None))"
    if W: "W \<in> set alternative_wake_words"
  proof -
    have ne: "W @ '' '' @ C \<noteq> []" by simp
    have "lower (W @ '' '' @ C) = W @ '' '' @ lower C"
      using lower_alternate [OF W] by (simp add: lower_append) (simp add: lower_def lower_char_def is_capital_def)
    then have cw: "command_after_wake (lower (W @ '' '' @ C)) =
        (if strip (lower C) \<noteq> [] then Some (strip (lower C)) else None)"
      using command_after_alternate [OF W, of "lower C"] by (simp add: lower_idem)
    show ?thesis unfolding detect_on_text [OF ne] cw by simp
  qed
  have three: "\<exists>p \<in> set candidates. startswith (lower text) p
            \<and> c = strip (drop (length p) (lower text))
            \<and> (\<forall>q \<in> set candidates. startswith (lower text) q \<longrightarrow> q = p)"
    if "command_after_wake text = Some c"
  proof -
    from command_after_wake_Some [OF that] obtain p where
      p: "p \<in> set candidates" "startswith (lower text) p" "c = strip (drop (length p) (lower text))"
      by blast
    have "\<forall>q \<in> set candidates. startswith (lower text) q \<longrightarrow> q = p"
      using candidates_unique [OF _ p(1) _ p(2)] by blast
    with p show ?thesis by blast
  qed
  show ?thesis using one three by auto
qed

theorem detect_wake_word_and_command_alternate_witness:
  "''hey nova'' \<in> set alternative_wake_words
   \<and> detect_wake_word_and_command None (Audio (Some (''hey nova'' @ '' '' @ ''open chrome''))) =
        ([Listen None], Inr (Some ''open chrome''))
   \<and> command_after_wake ''hi nova play music'' = Some ''play music''
   \<and> (\<exists>p \<in> set candidates. startswith (lower ''hi nova play music'') p
            \<and> ''play music'' = strip (drop (length p) (lower ''hi nova play music''))
            \<and> (\<forall>q \<in> set candidates. startswith (lower ''hi nova play music'') q \<longrightarrow> q = p))"
proof -
  have a: "''hey nova'' \<in> set alternative_wake_words"
    by (simp add: alternative_wake_words_def)
  have b: "''open chrome'' \<noteq> [] \<and> lower ''open chrome'' = ''open chrome'' \<and> strip ''open chrome'' = ''open chrome''"
    by (simp add: lower_def lower_char_def is_capital_def strip_def isspace_def)
  have c: "command_after_wake ''hi nova play music'' = Some ''play music''"
    by (simp add: command_after_wake_def alternative_wake_words_def wake_word_def startswith_def
         lower_def lower_char_def is_capital_def strip_def isspace_def)
  show ?thesis
    using detect_wake_word_and_command_alternate
      [of "''hey nova''" None "''open chrome''" "''hi nova play music''" "''play music''"] a b c
    by blast
qed

text \<open>
  The claim as written fails where \<open>C\<close> has capitals (the result is in lower case) and
  where \<open>C\<close> is only white space (nothing is returned, and the wake hook is called).
\<close>

theorem detect_wake_word_and_command_counterexample:
  "''hey nova'' \<in> set alternative_wake_words
   \<and> ''Open Chrome'' \<noteq> []
   \<and> snd (detect_wake_word_and_command None (Audio (Some (''hey nova'' @ '' '' @ ''Open Chrome''))))
        = Inr (Some ''open chrome'')
   \<and> ''open chrome'' \<noteq> ''Open Chrome''
   \<and> '' '' \<noteq> []
   \<and> detect_wake_word_and_command None (Audio (Some (''hey nova'' @ '' '' @ '' '')))
        = ([Listen None, WakeAck], Inr None)"
  by (simp add: detect_wake_word_and_command_def listen_for_audio_def recognize_speech_def
        command_after_wake_def alternative_wake_words_def wake_word_def startswith_def
        lower_def lower_char_def is_capital_def strip_def isspace_def)

section \<open>Properties of the wake word removal\<close>

lemma remove_split:
  assumes sw: "startswith (lower s) wake_word"
  shows "\<exists>pre post. s = pre @ remove_wake_word s @ post
            \<and> lower (take 4 pre) = wake_word
            \<and> (\<forall>c \<in> set (drop 4 pre). c = CHR '','' \<or> isspace c)
            \<and> (\<forall>c \<in> set post. isspace c)"
proof -
  let ?sep = "\<lambda>c. c = CHR '','' \<or> isspace c"
  let ?d = "drop (length wake_word) s"
  let ?e = "dropWhile ?sep ?d"
  have lw: "lower wake_word = wake_word"
    by (simp add: wake_word_def lower_def lower_char_def is_capital_def)
  have l4: "length wake_word = 4" by (simp add: wake_word_def)
  have r: "remove_wake_word s = strip ?e"
    using sw by (simp only: remove_wake_word_def lw if_True)
  from sw have t4: "lower (take 4 s) = wake_word"
    by (simp add: startswith_def l4 lower_def take_map)
  then have "length (lower (take 4 s)) = 4" using l4 by simp
  then have len: "length (take 4 s) = 4" by (simp add: lower_def)
  obtain a b where ab: "a @ strip ?e @ b = ?e" "\<forall>c \<in> set a. isspace c" "\<forall>c \<in> set b. isspace c"
    using strip_split [of ?e] by blast
  let ?pre = "take 4 s @ takeWhile ?sep ?d @ a"
  have A: "take 4 s @ ?d = s" by (simp add: l4)
  have B: "takeWhile ?sep ?d @ ?e = ?d" by simp
  have s: "?pre @ strip ?e @ b = s"
    by (simp only: append_assoc ab(1) B A)
  have p4: "take 4 ?pre = take 4 s" using len by simp
  have d4: "drop 4 ?pre = takeWhile ?sep ?d @ a" using len by simp
  have seps: "\<forall>c \<in> set (drop 4 ?pre). ?sep c"
    unfolding d4 using ab(2) by (auto dest: set_takeWhileD)
  have c1: "s = ?pre @ remove_wake_word s @ b"
    unfolding r by (rule s [symmetric])
  have c2: "lower (take 4 ?pre) = wake_word"
    unfolding p4 by (rule t4)
  show ?thesis
  proof (intro exI conjI)
    show "s = ?pre @ remove_wake_word s @ b" by (rule c1)
    show "lower (take 4 ?pre) = wake_word" by (rule c2)
    show "\<forall>c \<in> set (drop 4 ?pre). c = CHR '','' \<or> isspace c" by (rule seps)
    show "\<forall>c \<in> set b. isspace c" by (rule ab(3))
  qed
qed


lemma lower_wake_word: "lower wake_word = wake_word"
  by (simp add: wake_word_def lower_def lower_char_def is_capital_def)

lemma remove_wake_word_other:
  "\<not> startswith (lower s) wake_word \<Longrightarrow> remove_wake_word s = s"
  by (simp add: remove_wake_word_def lower_wake_word)

lemma remove_wake_word_ends:
  assumes sw: "startswith (lower s) wake_word" and ne: "remove_wake_word s \<noteq> []"
  shows "hd (remove_wake_word s) \<noteq> CHR '',''
         \<and> \<not> isspace (hd (remove_wake_word s))
         \<and> \<not> isspace (last (remove_wake_word s))"
proof -
  let ?sep = "\<lambda>c. c = CHR '','' \<or> isspace c"
  let ?e = "dropWhile ?sep (drop (length wake_word) s)"
  have r: "remove_wake_word s = strip ?e"
    using sw by (simp only: remove_wake_word_def lower_wake_word if_True)
  have se: "strip ?e \<noteq> []" using ne unfolding r .
  have e: "?e \<noteq> []"
  proof
    assume "?e = []"
    then have "strip ?e = []" by (simp only: strip_def dropWhile.simps(1) rev.simps(1))
    with se show False by (rule notE)
  qed
  then have h: "\<not> ?sep (hd ?e)" by (rule hd_dropWhile)
  then have "\<not> isspace (hd ?e)" by simp
  then have "dropWhile isspace ?e = ?e" using e by (cases ?e) simp_all
  then have "hd (strip ?e) = hd ?e" using strip_hd [OF se] by simp
  with h strip_ends [OF se] show ?thesis unfolding r by simp
qed

text \<open>
  C7, as the code has it. A text that does not start with the wake word (in any case) is
  returned unchanged. A text that does is split as a prefix, the result and a suffix: the
  prefix is the four letters followed only by commas and white space, the suffix is only
  white space, and a non-empty result begins with neither comma nor white space and does
  not end in white space; nothing else is removed, so punctuation at the end stays.
  Stripping twice is stripping once whenever the first result does not itself start with
  the wake word.
\<close>

theorem remove_wake_word_once:
  "(\<not> startswith (lower s) wake_word \<longrightarrow> remove_wake_word s = s)
   \<and> (startswith (lower s) wake_word \<longrightarrow>
        (\<exists>pre post. s = pre @ remove_wake_word s @ post
            \<and> lower (take 4 pre) = wake_word
            \<and> (\<forall>c \<in> set (drop 4 pre). c = CHR '','' \<or> isspace c)
            \<and> (\<forall>c \<in> set post. isspace c))
        \<and> (remove_wake_word s \<noteq> [] \<longrightarrow>
              hd (remove_wake_word s) \<noteq> CHR '',''
              \<and> \<not> isspace (hd (remove_wake_word s))
              \<and> \<not> isspace (last (remove_wake_word s))))
   \<and> (\<not> startswith (lower (remove_wake_word s)) wake_word \<longrightarrow>
        remove_wake_word (remove_wake_word s) = remove_wake_word s)"
  using remove_wake_word_other [of s] remove_wake_word_other [of "remove_wake_word s"]
    remove_split [of s] remove_wake_word_ends [of s]
  by blast

theorem remove_wake_word_once_witness:
  "\<not> startswith (lower ''open chrome'') wake_word
   \<and> remove_wake_word ''open chrome'' = ''open chrome''
   \<and> startswith (lower ''Nova, open chrome. '') wake_word
   \<and> remove_wake_word ''Nova, open chrome. '' = ''open chrome.''
   \<and> (\<exists>pre post. ''Nova, open chrome. '' = pre @ ''open chrome.'' @ post
            \<and> lower (take 4 pre) = wake_word
            \<and> (\<forall>c \<in> set (drop 4 pre). c = CHR '','' \<or> isspace c)
            \<and> (\<forall>c \<in> set post. isspace c))
   \<and> \<not> startswith (lower (remove_wake_word ''Nova, open chrome. '')) wake_word
   \<and> remove_wake_word (remove_wake_word ''Nova, open chrome. '') = remove_wake_word ''Nova, open chrome. ''"
proof -
  have a: "\<not> startswith (lower ''open chrome'') wake_word"
    by (simp add: startswith_def lower_def lower_char_def is_capital_def wake_word_def)
  have b: "startswith (lower ''Nova, open chrome. '') wake_word"
    by (simp add: startswith_def lower_def lower_char_def is_capital_def wake_word_def)
  have c: "remove_wake_word ''Nova, open chrome. '' = ''open chrome.''"
    by (simp add: remove_wake_word_def startswith_def lower_def lower_char_def is_capital_def
          wake_word_def strip_def isspace_def)
  have d: "\<not> startswith (lower ''open chrome.'') wake_word"
    by (simp add: startswith_def lower_def lower_char_def is_capital_def wake_word_def)
  show ?thesis
    using remove_wake_word_once [of "''open chrome''"]
      remove_wake_word_once [of "''Nova, open chrome. ''"] a b d
    unfolding c by blast
qed

text \<open>
  Stripping is not idempotent on a repeated wake word, and a full stop or a comma at the
  end of the command is kept.
\<close>

theorem remove_wake_word_counterexample:
  "remove_wake_word ''nova nova'' = ''nova''
   \<and> remove_wake_word (remove_wake_word ''nova nova'') = ''''
   \<and> remove_wake_word ''nova open chrome.'' = ''open chrome.''
   \<and> remove_wake_word ''open chrome,'' = ''open chrome,''"
  by (simp add: remove_wake_word_def startswith_def lower_def lower_char_def is_capital_def
        wake_word_def strip_def isspace_def)

section \<open>Properties of the command processor\<close>

lemma first_builtin_None:
  "first_builtin bs t = None \<longleftrightarrow> (\<forall>k \<in> set (map fst bs). \<not> contains k t)"
  by (induction bs t rule: first_builtin.induct) auto

lemma first_builtin_Some:
  "first_builtin bs t = Some h \<Longrightarrow>
     \<exists>i < length bs. contains (fst (bs ! i)) t \<and> (\<forall>j < i. \<not> contains (fst (bs ! j)) t)
        \<and> h = snd (bs ! i)"
proof (induction bs t rule: first_builtin.induct)
  case (1 t)
  then show ?case by simp
next
  case (2 key handler rest t)
  show ?case
  proof (cases "contains key t")
    case True
    with 2 have "h = handler" by simp
    with True show ?thesis by (intro exI [of _ 0]) simp
  next
    case False
    with 2 obtain i where i: "i < length rest" "contains (fst (rest ! i)) t"
        "\<forall>j < i. \<not> contains (fst (rest ! j)) t" "h = snd (rest ! i)"
      by auto
    have "\<forall>j < Suc i. \<not> contains (fst (((key, handler) # rest) ! j)) t"
      using False i(3) by (auto simp: less_Suc_eq_0_disj)
    with i show ?thesis by (intro exI [of _ "Suc i"]) simp
  qed
qed

lemma run_builtin_handlers:
  "run_builtin (e\<lparr>command_handlers := h\<rparr>) b t = run_builtin e b t"
  by (cases b) (simp_all add: get_random_greeting_def random_choice_def stop_def)

lemma process_route_builtin:
  assumes "command_text \<noteq> []"
    and "first_builtin builtin_commands (lower (remove_wake_word command_text)) = Some h"
  shows "process_route command_text = Builtin h (remove_wake_word command_text)"
  using assms by (simp add: process_route_def)

text \<open>
  C3. Whenever the command text is not empty and its lower-cased form after wake word
  removal contains at least one key of the builtin list, there is a first position in
  the list whose key is contained, no earlier key is, \<open>process\<close> takes the builtin branch
  with the handler at that position and returns what that handler returns; the category
  handlers play no part: replacing them changes nothing.
\<close>

theorem process_first_builtin:
  assumes "command_text \<noteq> []"
    and "\<exists>k \<in> set (map fst builtin_commands). contains k (lower (remove_wake_word command_text))"
  shows "\<exists>i < length builtin_commands.
           contains (fst (builtin_commands ! i)) (lower (remove_wake_word command_text))
           \<and> (\<forall>j < i. \<not> contains (fst (builtin_commands ! j)) (lower (remove_wake_word command_text)))
           \<and> process_route command_text =
                Builtin (snd (builtin_commands ! i)) (remove_wake_word command_text)
           \<and> process e command_text =
                run_builtin e (snd (builtin_commands ! i)) (remove_wake_word command_text)
           \<and> (\<forall>h. process (e\<lparr>command_handlers := h\<rparr>) command_text = process e command_text)"
proof -
  let ?t = "lower (remove_wake_word command_text)"
  from assms(2) have "first_builtin builtin_commands ?t \<noteq> None"
    by (simp only: first_builtin_None) blast
  then obtain h where h: "first_builtin builtin_commands ?t = Some h" by blast
  from first_builtin_Some [OF h] obtain i where i: "i < length builtin_commands"
      "contains (fst (builtin_commands ! i)) ?t"
      "\<forall>j < i. \<not> contains (fst (builtin_commands ! j)) ?t" "h = snd (builtin_commands ! i)"
    by blast
  have r: "process_route command_text = Builtin h (remove_wake_word command_text)"
    by (rule process_route_builtin [OF assms(1) h])
  have p: "process e' command_text = run_builtin e' h (remove_wake_word command_text)" for e'
    by (simp add: process_def r)
  have "\<forall>g. process (e\<lparr>command_handlers := g\<rparr>) command_text = process e command_text"
    by (simp add: p run_builtin_handlers)
  with i r p show ?thesis by blast
qed

theorem process_first_builtin_witness:
  "''what time is it'' \<noteq> []
   \<and> (\<exists>k \<in> set (map fst builtin_commands). contains k (lower (remove_wake_word ''what time is it'')))
   \<and> (\<exists>i < length builtin_commands.
           contains (fst (builtin_commands ! i)) (lower (remove_wake_word ''what time is it''))
           \<and> (\<forall>j < i. \<not> contains (fst (builtin_commands ! j)) (lower (remove_wake_word ''what time is it'')))
           \<and> process_route ''what time is it'' =
                Builtin (snd (builtin_commands ! i)) (remove_wake_word ''what time is it'')
           \<and> process test_env ''what time is it'' =
                run_builtin test_env (snd (builtin_commands ! i)) (remove_wake_word ''what time is it'')
           \<and> (\<forall>h. process (test_env\<lparr>command_handlers := h\<rparr>) ''what time is it'' = process test_env ''what time is it''))
   \<and> process_route ''what time is it'' = Builtin handle_time ''what time is it''"
proof -
  have h1: "''what time is it'' \<noteq> []" by simp
  have c: "contains ''time'' (lower (remove_wake_word ''what time is it''))"
    by code_simp
  have "''time'' \<in> set (map fst builtin_commands)" by (simp add: builtin_commands_def)
  with c have h2: "\<exists>k \<in> set (map fst builtin_commands). contains k (lower (remove_wake_word ''what time is it''))"
    by blast
  have r: "process_route ''what time is it'' = Builtin handle_time ''what time is it''"
    by code_simp
  show ?thesis
    using process_first_builtin [OF h1 h2, of test_env] h1 h2 r by blast
qed









text \<open>
  C4 says that a command that is empty after wake word removal gets the clarification
  response. The code tests for emptiness before it removes the wake word: the text
  \<open>nova\<close> becomes empty, runs through the builtin list, the patterns and the keyword
  lists, and gets the response for a command that was not understood, quoting the empty
  text. Only a text that is empty from the start gets the clarification.
\<close>

theorem process_wake_word_only:
  "remove_wake_word ''nova'' = []
   \<and> process_route ''nova'' = NotUnderstood []
   \<and> process test_env ''nova'' = Inr (not_understood [])
   \<and> not_understood [] \<noteq> clarification
   \<and> process_route [] = Clarify
   \<and> process test_env [] = Inr clarification"
proof -
  have a: "remove_wake_word ''nova'' = []" by code_simp
  have b: "process_route ''nova'' = NotUnderstood []" by code_simp
  have c: "process test_env ''nova'' = Inr (not_understood [])" by (simp add: process_def b)
  have d: "not_understood [] \<noteq> clarification" by (simp add: not_understood_def clarification_def)
  have e: "process_route [] = Clarify" by (simp add: process_route_def)
  have f: "process test_env [] = Inr clarification" by (simp add: process_def e)
  show ?thesis using a b c d e f by simp
qed

lemma first_pattern_Some:
  "first_pattern ps s = Some m \<Longrightarrow>
     \<exists>i < length ps. re_search (ps ! i) s = Some m \<and> (\<forall>j < i. re_search (ps ! j) s = None)"
proof (induction ps)
  case Nil
  then show ?case by simp
next
  case (Cons p ps)
  show ?case
  proof (cases "re_search p s")
    case (Some m')
    with Cons.prems have "m' = m" by simp
    with Some show ?thesis by (intro exI [of _ 0]) simp
  next
    case None
    with Cons obtain i where i: "i < length ps" "re_search (ps ! i) s = Some m"
        "\<forall>j < i. re_search (ps ! j) s = None"
      by auto
    have "\<forall>j < Suc i. re_search ((p # ps) ! j) s = None"
      using None i(3) by (auto simp: less_Suc_eq_0_disj)
    with i show ?thesis by (intro exI [of _ "Suc i"]) simp
  qed
qed

lemma scan_categories_Some:
  "scan_categories cps s = Some (c, m) \<Longrightarrow>
     \<exists>i < length cps. fst (cps ! i) = c \<and> first_pattern (snd (cps ! i)) s = Some m
        \<and> (\<forall>j < i. first_pattern (snd (cps ! j)) s = None)"
proof (induction cps s rule: scan_categories.induct)
  case (1 s)
  then show ?case by simp
next
  case (2 category patterns rest s)
  show ?case
  proof (cases "first_pattern patterns s")
    case (Some m')
    with 2(2) have "category = c \<and> m' = m" by simp
    with Some show ?thesis by (intro exI [of _ 0]) simp
  next
    case None
    with 2 obtain i where i: "i < length rest" "fst (rest ! i) = c"
        "first_pattern (snd (rest ! i)) s = Some m"
        "\<forall>j < i. first_pattern (snd (rest ! j)) s = None"
      by auto
    have "\<forall>j < Suc i. first_pattern (snd (((category, patterns) # rest) ! j)) s = None"
      using None i(4) by (auto simp: less_Suc_eq_0_disj)
    with i show ?thesis by (intro exI [of _ "Suc i"]) simp
  qed
qed

lemma scan_categories_None:
  "scan_categories cps s = None \<longleftrightarrow> (\<forall>cp \<in> set cps. first_pattern (snd cp) s = None)"
  by (induction cps s rule: scan_categories.induct) (auto split: option.splits)

lemma category_order: "map fst command_patterns = [App, System, Network, Utility]"
  by (simp add: command_patterns_def)

lemma app_patterns_first:
  assumes "first_pattern (snd (command_patterns ! 0)) s = Some m"
  shows "scan_categories command_patterns s = Some (App, m)"
proof -
  obtain ps rest where cp: "command_patterns = (App, ps) # rest"
    by (simp add: command_patterns_def)
  have "first_pattern ps s = Some m" using assms unfolding cp by simp
  then show ?thesis unfolding cp by simp
qed

lemma first_pattern_None:
  "first_pattern ps s = None \<longleftrightarrow> (\<forall>p \<in> set ps. re_search p s = None)"
  by (induction ps) (auto split: option.splits)

lemma scan_categories_searches:
  assumes "scan_categories cps s = Some (c, m)"
  shows "\<exists>i < length cps. fst (cps ! i) = c
           \<and> (\<exists>k < length (snd (cps ! i)).
                 re_search (snd (cps ! i) ! k) s = Some m
                 \<and> (\<forall>l < k. re_search (snd (cps ! i) ! l) s = None))
           \<and> (\<forall>j < i. \<forall>p \<in> set (snd (cps ! j)). re_search p s = None)"
proof -
  from scan_categories_Some [OF assms] obtain i where i: "i < length cps" "fst (cps ! i) = c"
      "first_pattern (snd (cps ! i)) s = Some m"
      "\<forall>j < i. first_pattern (snd (cps ! j)) s = None"
    by blast
  from first_pattern_Some [OF i(3)] have k: "\<exists>k < length (snd (cps ! i)).
                 re_search (snd (cps ! i) ! k) s = Some m
                 \<and> (\<forall>l < k. re_search (snd (cps ! i) ! l) s = None)" .
  from i(4) have "\<forall>j < i. \<forall>p \<in> set (snd (cps ! j)). re_search p s = None"
    by (simp add: first_pattern_None)
  with i(1,2) k show ?thesis by blast
qed

lemma scan_categories_no_search:
  "scan_categories cps s = None \<longleftrightarrow>
     (\<forall>cp \<in> set cps. \<forall>p \<in> set (snd cp). re_search p s = None)"
  by (simp add: scan_categories_None first_pattern_None)

lemma app_pattern_wins:
  assumes "p \<in> set (snd (command_patterns ! 0))" "re_search p s \<noteq> None"
  shows "\<exists>m. scan_categories command_patterns s = Some (App, m)"
proof -
  have "first_pattern (snd (command_patterns ! 0)) s \<noteq> None"
  proof
    assume "first_pattern (snd (command_patterns ! 0)) s = None"
    then have "\<forall>p \<in> set (snd (command_patterns ! 0)). re_search p s = None"
      by (simp only: first_pattern_None)
    then have "re_search p s = None" using assms(1) by (rule bspec)
    with assms(2) show False by simp
  qed
  then obtain m where "first_pattern (snd (command_patterns ! 0)) s = Some m" by blast
  from app_patterns_first [OF this] show ?thesis by blast
qed

lemma process_route_category:
  assumes "command_text \<noteq> []"
    and "first_builtin builtin_commands (lower (remove_wake_word command_text)) = None"
    and "categorize_command (remove_wake_word command_text) = Some (c, m)"
  shows "process_route command_text = ToHandler c (remove_wake_word command_text) (Some m)"
  using assms by (simp add: process_route_def)

text \<open>
  C2. When the command text is not empty, no builtin key is contained in it and
  \<open>_categorize_command\<close> finds a category, \<open>process\<close> calls the handler of that category
  with the text and the match, whose groups are the captured slots. The category found
  is the first in the table's order that has a pattern which \<open>re.search\<close> finds in the
  lower-cased text: every pattern of every category before it fails, the match is that
  of the first pattern of the category that succeeds, and nothing is found exactly when
  every pattern of every category fails. The order is application, system, network,
  utility, so a text in which any application pattern is found is an application command
  whatever else it matches: \<open>open task manager\<close> matches a utility pattern too and goes to
  the application handler with the slot \<open>app_name\<close>. Patterns that are not the first of
  their category are reached: \<open>list cpu usage\<close> is a utility command and
  \<open>show my ip address\<close> a network command.
\<close>

theorem categorize_in_category_order:
  "(command_text \<noteq> []
      \<and> first_builtin builtin_commands (lower (remove_wake_word command_text)) = None
      \<and> categorize_command (remove_wake_word command_text) = Some (c, m) \<longrightarrow>
        process_route command_text = ToHandler c (remove_wake_word command_text) (Some m)
        \<and> process e command_text = command_handlers e c (remove_wake_word command_text) (Some m))
   \<and> (categorize_command t = Some (c, m) \<longrightarrow>
        (\<exists>i < length command_patterns.
           fst (command_patterns ! i) = c
           \<and> first_pattern (snd (command_patterns ! i)) (lower t) = Some m
           \<and> (\<forall>j < i. first_pattern (snd (command_patterns ! j)) (lower t) = None)))
   \<and> (categorize_command t = None \<longleftrightarrow>
        (\<forall>cp \<in> set command_patterns. first_pattern (snd cp) (lower t) = None))
   \<and> map fst command_patterns = [App, System, Network, Utility]
   \<and> (first_pattern (snd (command_patterns ! 0)) (lower t) = Some m \<longrightarrow>
        categorize_command t = Some (App, m))
   \<and> process_route ''open task manager'' =
        ToHandler App ''open task manager''
          (Some (Match ''open task manager'' [(''app_name'', ''task manager'')]))
   \<and> first_pattern (snd (command_patterns ! 3)) ''open task manager'' =
        Some (Match ''open task manager'' [(''1'', ''task manager'')])
   \<and> (categorize_command t = Some (c, m) \<longrightarrow>
        (\<exists>i < length command_patterns.
           fst (command_patterns ! i) = c
           \<and> (\<exists>k < length (snd (command_patterns ! i)).
                 re_search (snd (command_patterns ! i) ! k) (lower t) = Some m
                 \<and> (\<forall>l < k. re_search (snd (command_patterns ! i) ! l) (lower t) = None))
           \<and> (\<forall>j < i. \<forall>p \<in> set (snd (command_patterns ! j)). re_search p (lower t) = None)))
   \<and> (categorize_command t = None \<longleftrightarrow>
        (\<forall>cp \<in> set command_patterns. \<forall>p \<in> set (snd cp). re_search p (lower t) = None))
   \<and> (q \<in> set (snd (command_patterns ! 0)) \<and> re_search q (lower t) \<noteq> None \<longrightarrow>
        (\<exists>m'. categorize_command t = Some (App, m')))
   \<and> process_route ''list cpu usage'' =
        ToHandler Utility ''list cpu usage''
          (Some (Match ''list cpu usage'' [(''1'', ''list''), (''2'', ''cpu usage'')]))
   \<and> process_route ''show my ip address'' =
        ToHandler Network ''show my ip address''
          (Some (Match ''show my ip address'' [(''1'', ''show''), (''2'', ''my''), (''3'', ''ip address'')]))"
proof -
  have one: "process_route command_text = ToHandler c (remove_wake_word command_text) (Some m)
        \<and> process e command_text = command_handlers e c (remove_wake_word command_text) (Some m)"
    if "command_text \<noteq> []"
       "first_builtin builtin_commands (lower (remove_wake_word command_text)) = None"
       "categorize_command (remove_wake_word command_text) = Some (c, m)"
  proof -
    have r: "process_route command_text = ToHandler c (remove_wake_word command_text) (Some m)"
      by (rule process_route_category [OF that])
    then show ?thesis by (simp add: process_def)
  qed
  have two: "\<exists>i < length command_patterns.
           fst (command_patterns ! i) = c
           \<and> first_pattern (snd (command_patterns ! i)) (lower t) = Some m
           \<and> (\<forall>j < i. first_pattern (snd (command_patterns ! j)) (lower t) = None)"
    if "categorize_command t = Some (c, m)"
    using that unfolding categorize_command_def by (rule scan_categories_Some)
  have three: "categorize_command t = None \<longleftrightarrow>
        (\<forall>cp \<in> set command_patterns. first_pattern (snd cp) (lower t) = None)"
    unfolding categorize_command_def by (rule scan_categories_None)
  have four: "categorize_command t = Some (App, m)"
    if "first_pattern (snd (command_patterns ! 0)) (lower t) = Some m"
    using that unfolding categorize_command_def by (rule app_patterns_first)
  have five: "process_route ''open task manager'' =
        ToHandler App ''open task manager''
          (Some (Match ''open task manager'' [(''app_name'', ''task manager'')]))"
    by code_simp
  have six: "first_pattern (snd (command_patterns ! 3)) ''open task manager'' =
        Some (Match ''open task manager'' [(''1'', ''task manager'')])"
    by code_simp
  have seven: "\<exists>i < length command_patterns.
           fst (command_patterns ! i) = c
           \<and> (\<exists>k < length (snd (command_patterns ! i)).
                 re_search (snd (command_patterns ! i) ! k) (lower t) = Some m
                 \<and> (\<forall>l < k. re_search (snd (command_patterns ! i) ! l) (lower t) = None))
           \<and> (\<forall>j < i. \<forall>p \<in> set (snd (command_patterns ! j)). re_search p (lower t) = None)"
    if "categorize_command t = Some (c, m)"
    using that unfolding categorize_command_def by (rule scan_categories_searches)
  have eight: "categorize_command t = None \<longleftrightarrow>
        (\<forall>cp \<in> set command_patterns. \<forall>p \<in> set (snd cp). re_search p (lower t) = None)"
    unfolding categorize_command_def by (rule scan_categories_no_search)
  have nine: "\<exists>m'. categorize_command t = Some (App, m')"
    if "q \<in> set (snd (command_patterns ! 0))" "re_search q (lower t) \<noteq> None"
    unfolding categorize_command_def by (rule app_pattern_wins [OF that])
  have ten: "process_route ''list cpu usage'' =
        ToHandler Utility ''list cpu usage''
          (Some (Match ''list cpu usage'' [(''1'', ''list''), (''2'', ''cpu usage'')]))"
    by code_simp
  have eleven: "process_route ''show my ip address'' =
        ToHandler Network ''show my ip address''
          (Some (Match ''show my ip address'' [(''1'', ''show''), (''2'', ''my''), (''3'', ''ip address'')]))"
    by code_simp
  have c1: "command_text \<noteq> []
      \<and> first_builtin builtin_commands (lower (remove_wake_word command_text)) = None
      \<and> categorize_command (remove_wake_word command_text) = Some (c, m) \<longrightarrow>
        process_route command_text = ToHandler c (remove_wake_word command_text) (Some m)
        \<and> process e command_text = command_handlers e c (remove_wake_word command_text) (Some m)"
    using one by blast
  have c2: "categorize_command t = Some (c, m) \<longrightarrow>
        (\<exists>i < length command_patterns.
           fst (command_patterns ! i) = c
           \<and> first_pattern (snd (command_patterns ! i)) (lower t) = Some m
           \<and> (\<forall>j < i. first_pattern (snd (command_patterns ! j)) (lower t) = None))"
    using two by (rule impI)
  have c5: "first_pattern (snd (command_patterns ! 0)) (lower t) = Some m \<longrightarrow>
        categorize_command t = Some (App, m)"
    using four by (rule impI)
  have c8: "categorize_command t = Some (c, m) \<longrightarrow>
        (\<exists>i < length command_patterns.
           fst (command_patterns ! i) = c
           \<and> (\<exists>k < length (snd (command_patterns ! i)).
                 re_search (snd (command_patterns ! i) ! k) (lower t) = Some m
                 \<and> (\<forall>l < k. re_search (snd (command_patterns ! i) ! l) (lower t) = None))
           \<and> (\<forall>j < i. \<forall>p \<in> set (snd (command_patterns ! j)). re_search p (lower t) = None))"
    using seven by (rule impI)
  have c10: "q \<in> set (snd (command_patterns ! 0)) \<and> re_search q (lower t) \<noteq> None \<longrightarrow>
        (\<exists>m'. categorize_command t = Some (App, m'))"
    using nine by blast
  show ?thesis
    by (rule conjI [OF c1 conjI [OF c2 conjI [OF three conjI [OF category_order
          conjI [OF c5 conjI [OF five conjI [OF six conjI [OF c8 conjI [OF eight
          conjI [OF c10 conjI [OF ten eleven]]]]]]]]]]])
qed

theorem categorize_in_category_order_witness:
  "''turn off wifi'' \<noteq> []
   \<and> first_builtin builtin_commands (lower (remove_wake_word ''turn off wifi'')) = None
   \<and> categorize_command (remove_wake_word ''turn off wifi'') =
        Some (Network, Match ''turn off wifi'' [(''1'', ''off''), (''2'', ''wifi'')])
   \<and> process_route ''turn off wifi'' =
        ToHandler Network (remove_wake_word ''turn off wifi'')
          (Some (Match ''turn off wifi'' [(''1'', ''off''), (''2'', ''wifi'')]))
   \<and> (\<exists>i < length command_patterns.
           fst (command_patterns ! i) = Network
           \<and> first_pattern (snd (command_patterns ! i)) (lower ''turn off wifi'') =
               Some (Match ''turn off wifi'' [(''1'', ''off''), (''2'', ''wifi'')])
           \<and> (\<forall>j < i. first_pattern (snd (command_patterns ! j)) (lower ''turn off wifi'') = None))
   \<and> first_pattern (snd (command_patterns ! 0)) (lower ''open task manager'') =
        Some (Match ''open task manager'' [(''app_name'', ''task manager'')])
   \<and> categorize_command ''open task manager'' =
        Some (App, Match ''open task manager'' [(''app_name'', ''task manager'')])
   \<and> (\<exists>i < length command_patterns.
           fst (command_patterns ! i) = Network
           \<and> (\<exists>k < length (snd (command_patterns ! i)).
                 re_search (snd (command_patterns ! i) ! k) (lower ''turn off wifi'') =
                   Some (Match ''turn off wifi'' [(''1'', ''off''), (''2'', ''wifi'')])
                 \<and> (\<forall>l < k. re_search (snd (command_patterns ! i) ! l) (lower ''turn off wifi'') = None))
           \<and> (\<forall>j < i. \<forall>p \<in> set (snd (command_patterns ! j)).
                  re_search p (lower ''turn off wifi'') = None))"
proof -
  have d: "first_pattern (snd (command_patterns ! 0)) (lower ''open task manager'') =
        Some (Match ''open task manager'' [(''app_name'', ''task manager'')])"
    by code_simp
  have a: "''turn off wifi'' \<noteq> []" by simp
  have b: "first_builtin builtin_commands (lower (remove_wake_word ''turn off wifi'')) = None"
    by code_simp
  have r: "remove_wake_word ''turn off wifi'' = ''turn off wifi''" by code_simp
  have c: "categorize_command (remove_wake_word ''turn off wifi'') =
        Some (Network, Match ''turn off wifi'' [(''1'', ''off''), (''2'', ''wifi'')])"
    by code_simp
  have c': "categorize_command ''turn off wifi'' =
        Some (Network, Match ''turn off wifi'' [(''1'', ''off''), (''2'', ''wifi'')])"
    using c unfolding r .
  note T1 = categorize_in_category_order
      [of "''turn off wifi''" Network "Match ''turn off wifi'' [(''1'', ''off''), (''2'', ''wifi'')]"
          test_env "''turn off wifi''"]
  note T2 = categorize_in_category_order
      [of "''open task manager''" App "Match ''open task manager'' [(''app_name'', ''task manager'')]"
          test_env "''open task manager''"]
  have w1: "process_route ''turn off wifi'' =
        ToHandler Network (remove_wake_word ''turn off wifi'')
          (Some (Match ''turn off wifi'' [(''1'', ''off''), (''2'', ''wifi'')]))"
    using T1 [THEN conjunct1] a b c by blast
  have w2: "\<exists>i < length command_patterns.
           fst (command_patterns ! i) = Network
           \<and> first_pattern (snd (command_patterns ! i)) (lower ''turn off wifi'') =
               Some (Match ''turn off wifi'' [(''1'', ''off''), (''2'', ''wifi'')])
           \<and> (\<forall>j < i. first_pattern (snd (command_patterns ! j)) (lower ''turn off wifi'') = None)"
    using T1 [THEN conjunct2, THEN conjunct1] c' by (rule mp)
  have w5: "categorize_command ''open task manager'' =
        Some (App, Match ''open task manager'' [(''app_name'', ''task manager'')])"
    using T2 [THEN conjunct2, THEN conjunct2, THEN conjunct2, THEN conjunct2, THEN conjunct1] d
    by (rule mp)
  have w8: "\<exists>i < length command_patterns.
           fst (command_patterns ! i) = Network
           \<and> (\<exists>k < length (snd (command_patterns ! i)).
                 re_search (snd (command_patterns ! i) ! k) (lower ''turn off wifi'') =
                   Some (Match ''turn off wifi'' [(''1'', ''off''), (''2'', ''wifi'')])
                 \<and> (\<forall>l < k. re_search (snd (command_patterns ! i) ! l) (lower ''turn off wifi'') = None))
           \<and> (\<forall>j < i. \<forall>p \<in> set (snd (command_patterns ! j)).
                  re_search p (lower ''turn off wifi'') = None)"
    using T1 [THEN conjunct2, THEN conjunct2, THEN conjunct2, THEN conjunct2, THEN conjunct2,
              THEN conjunct2, THEN conjunct2, THEN conjunct1] c'
    by (rule mp)
  show ?thesis
    by (rule conjI [OF a conjI [OF b conjI [OF c conjI [OF w1 conjI [OF w2 conjI [OF d
          conjI [OF w5 w8]]]]]]])
qed

section \<open>Properties of the listening loop\<close>

lemma detect_wake_word_and_command_events:
  "fst (detect_wake_word_and_command timeout cap) \<in> {[], [Listen timeout], [Listen timeout, WakeAck]}"
  by (cases cap)
     (auto simp: detect_wake_word_and_command_def listen_for_audio_def split: option.splits)

lemma detect_wake_word_events:
  "fst (detect_wake_word timeout cap) \<in> {[], [Listen timeout]}"
  by (cases cap)
     (auto simp: detect_wake_word_def listen_for_audio_def Let_def split: option.splits)

lemma listen_for_command_events:
  "fst (listen_for_command timeout cap) \<in> {[WakeAck], [WakeAck, Listen timeout]}"
  by (cases cap) (auto simp: listen_for_command_def listen_for_audio_def)

lemma process_command_returns: "snd (process_command e command_text) = Inr ()"
  by (simp add: process_command_def split: sum.splits)

lemma process_command_events:
  "fst (process_command e command_text) = [ProcessingStarted, ProcessingStopped]
   \<or> (\<exists>x. fst (process_command e command_text) = [ProcessingStarted, Speak x, ProcessingStopped])"
  by (simp add: process_command_def speak_def split: sum.splits)

lemma process_command_raise:
  "process e command_text = Inl x \<Longrightarrow>
   process_command e command_text = ([ProcessingStarted, Speak apology, ProcessingStopped], Inr ())"
  by (simp add: process_command_def speak_def apology_def)

lemma process_command_return:
  "process e command_text = Inr msg \<Longrightarrow> msg \<noteq> [] \<Longrightarrow>
   process_command e command_text = ([ProcessingStarted, Speak msg, ProcessingStopped], Inr ())"
  by (simp add: process_command_def speak_def)

lemma follow_up_start:
  "take 3 (follow_up e sc) = [ListeningStarted, WakeAck, WakeAck]"
  using listen_for_command_events [of "Some 5" "cap3 sc"]
  by (auto simp: follow_up_def split: prod.splits sum.splits)

lemma follow_up_capture:
  "cap3 sc \<noteq> MicFailure \<Longrightarrow>
   take 4 (follow_up e sc) = [ListeningStarted, WakeAck, WakeAck, Listen (Some 5)]"
  by (cases "cap3 sc")
     (auto simp: follow_up_def listen_for_command_def listen_for_audio_def
           split: prod.splits sum.splits)

lemma no_listen_in_process_command:
  "Listen t \<notin> set (fst (process_command e command_text))"
  using process_command_events [of e command_text] by auto

lemma process_command_pair:
  "process_command e command_text = (fst (process_command e command_text), Inr ())"
  using process_command_returns [of e command_text]
  by (cases "process_command e command_text") simp

lemma follow_up_listens:
  assumes "Listen t \<in> set (follow_up e sc)"
  shows "t = Some 5"
proof -
  obtain ev3 r3 where l: "listen_for_command (Some 5) (cap3 sc) = (ev3, r3)"
    by (cases "listen_for_command (Some 5) (cap3 sc)")
  with listen_for_command_events [of "Some 5" "cap3 sc"]
  have ev3: "ev3 = [WakeAck] \<or> ev3 = [WakeAck, Listen (Some 5)]" by simp
  show ?thesis
  proof (cases r3)
    case (Inl x)
    with assms l ev3 show ?thesis by (auto simp: follow_up_def)
  next
    case (Inr command)
    obtain evp where p: "process_command e (the command) = (evp, Inr ())"
      using process_command_pair by blast
    have "Listen t \<notin> set evp"
      using no_listen_in_process_command [of t e "the command"] p by simp
    with assms l ev3 Inr p show ?thesis by (auto simp: follow_up_def split: if_splits)
  qed
qed

lemma iteration_listens:
  assumes "Listen t \<in> set (iteration e sc)"
  shows "t = None \<or> t = Some 5"
proof -
  obtain ev1 r1 where d1: "detect_wake_word_and_command None (cap1 sc) = (ev1, r1)"
    by (cases "detect_wake_word_and_command None (cap1 sc)")
  with detect_wake_word_and_command_events [of None "cap1 sc"]
  have ev1: "\<forall>u. Listen u \<in> set ev1 \<longrightarrow> u = None" by auto
  obtain ev2 r2 where d2: "detect_wake_word None (cap2 sc) = (ev2, r2)"
    by (cases "detect_wake_word None (cap2 sc)")
  with detect_wake_word_events [of None "cap2 sc"]
  have ev2: "\<forall>u. Listen u \<in> set ev2 \<longrightarrow> u = None" by auto
  have second: "t = None \<or> t = Some 5"
    if "Listen t \<in> set (case detect_wake_word None (cap2 sc) of
                  (ev2, Inl x) \<Rightarrow> ev1 @ ev2 @ [Sleep]
                | (ev2, Inr wake_word_detected) \<Rightarrow>
                    if wake_word_detected \<and> \<not> stop2 sc
                    then ev1 @ ev2 @ follow_up e sc
                    else ev1 @ ev2)"
    using that ev1 ev2 follow_up_listens [of t e sc] unfolding d2
    by (cases r2) (auto split: if_splits)
  show ?thesis
  proof (cases r1)
    case (Inl x)
    with assms d1 ev1 show ?thesis by (auto simp: iteration_def)
  next
    case (Inr command)
    show ?thesis
    proof (cases "truthy command \<and> \<not> stop1 sc")
      case True
      obtain evp where p: "process_command e (the command) = (evp, Inr ())"
        using process_command_pair by blast
      have "Listen t \<notin> set evp"
        using no_listen_in_process_command [of t e "the command"] p by simp
      with assms d1 Inr True p ev1 show ?thesis by (auto simp: iteration_def)
    next
      case False
      with assms d1 Inr have "Listen t \<in> set (case detect_wake_word None (cap2 sc) of
                  (ev2, Inl x) \<Rightarrow> ev1 @ ev2 @ [Sleep]
                | (ev2, Inr wake_word_detected) \<Rightarrow>
                    if wake_word_detected \<and> \<not> stop2 sc
                    then ev1 @ ev2 @ follow_up e sc
                    else ev1 @ ev2)"
        by (auto simp: iteration_def)
      then show ?thesis by (rule second)
    qed
  qed
qed

lemma first_capture_unbounded:
  "cap1 sc \<noteq> MicFailure \<Longrightarrow> hd (iteration e sc) = Listen None"
  by (cases "cap1 sc")
     (auto simp: iteration_def detect_wake_word_and_command_def listen_for_audio_def
           split: prod.splits sum.splits option.splits)

lemma iteration_direct_command:
  assumes "cap1 sc = Audio (Some u)" "u \<noteq> []" "command_after_wake (lower u) = Some command"
    "\<not> stop1 sc"
  shows "iteration e sc = Listen None # fst (process_command e command)"
proof -
  have d: "detect_wake_word_and_command None (cap1 sc) = ([Listen None], Inr (Some command))"
    using assms(2,3) unfolding assms(1) by (simp add: detect_on_text)
  have c: "command \<noteq> []"
    using assms(3) by (auto simp: command_after_wake_def Let_def split: if_splits
        dest: first_phrase_command_Some)
  obtain evp where p: "process_command e command = (evp, Inr ())"
    using process_command_pair by blast
  show ?thesis
    unfolding iteration_def d using c assms(4) by (simp add: truthy_def p)
qed

lemma detect_wake_word_result:
  "cap \<noteq> MicFailure \<Longrightarrow> \<exists>r. detect_wake_word timeout cap = ([Listen timeout], Inr r)"
  by (cases cap)
     (auto simp: detect_wake_word_def listen_for_audio_def Let_def split: option.splits)

lemma iteration_command_dropped:
  assumes "cap1 sc = Audio (Some u)" "u \<noteq> []" "command_after_wake (lower u) = Some command"
    "stop1 sc" "stop2 sc" "cap2 sc \<noteq> MicFailure"
  shows "iteration e sc = [Listen None, Listen None]"
proof -
  have d: "detect_wake_word_and_command None (cap1 sc) = ([Listen None], Inr (Some command))"
    using assms(2,3) unfolding assms(1) by (simp add: detect_on_text)
  obtain r2 where d2: "detect_wake_word None (cap2 sc) = ([Listen None], Inr r2)"
    using detect_wake_word_result [OF assms(6)] by blast
  show ?thesis unfolding iteration_def d d2 using assms(4,5) by simp
qed

text \<open>
  C8. \<open>process_command\<close> never raises. When a category handler raises while \<open>process\<close>
  runs, \<open>process\<close> raises, \<open>process_command\<close> catches it and speaks the apology between
  the two processing notifications; when the handler reports its failure as a message,
  that message is spoken. In the loop, a pass whose command makes the handler raise
  consists of the capture and those three events, without the one-second sleep of the
  loop's own error branch, and the loop goes on with its next pass.
\<close>

theorem handler_failure_is_spoken:
  "snd (process_command e command_text) = Inr ()
   \<and> (process_route command_text = ToHandler c t m \<and> command_handlers e c t m = Inl x \<longrightarrow>
        process e command_text = Inl x)
   \<and> (process e command_text = Inl x \<longrightarrow>
        process_command e command_text =
          ([ProcessingStarted, Speak apology, ProcessingStopped], Inr ()))
   \<and> (process e command_text = Inr msg \<and> msg \<noteq> [] \<longrightarrow>
        process_command e command_text =
          ([ProcessingStarted, Speak msg, ProcessingStopped], Inr ()))
   \<and> (\<not> stop_top sc \<and> cap1 sc = Audio (Some u) \<and> u \<noteq> []
        \<and> command_after_wake (lower u) = Some command_text \<and> \<not> stop1 sc
        \<and> process e command_text = Inl x \<longrightarrow>
        iteration e sc = [Listen None, ProcessingStarted, Speak apology, ProcessingStopped]
        \<and> listen_continuously e (sc # scs) =
            ([Listen None, ProcessingStarted, Speak apology, ProcessingStopped]
               @ fst (listen_continuously e scs),
             snd (listen_continuously e scs)))"
proof -
  have two: "process e command_text = Inl x"
    if "process_route command_text = ToHandler c t m" "command_handlers e c t m = Inl x"
    using that by (simp add: process_def)
  have five: "iteration e sc = [Listen None, ProcessingStarted, Speak apology, ProcessingStopped]
        \<and> listen_continuously e (sc # scs) =
            ([Listen None, ProcessingStarted, Speak apology, ProcessingStopped]
               @ fst (listen_continuously e scs),
             snd (listen_continuously e scs))"
    if "\<not> stop_top sc" "cap1 sc = Audio (Some u)" "u \<noteq> []"
       "command_after_wake (lower u) = Some command_text" "\<not> stop1 sc"
       "process e command_text = Inl x"
  proof -
    have "iteration e sc = Listen None # fst (process_command e command_text)"
      by (rule iteration_direct_command [OF that(2,3,4,5)])
    then have i: "iteration e sc = [Listen None, ProcessingStarted, Speak apology, ProcessingStopped]"
      by (simp add: process_command_raise [OF that(6)])
    then show ?thesis using that(1) by simp
  qed
  show ?thesis
    using process_command_returns [of e command_text] two five
      process_command_raise [of e command_text x] process_command_return [of e command_text msg]
    by blast
qed

theorem handler_failure_is_spoken_witness:
  "process_route ''open chrome'' =
      ToHandler App ''open chrome'' (Some (Match ''open chrome'' [(''app_name'', ''chrome'')]))
   \<and> command_handlers failing_env App ''open chrome''
        (Some (Match ''open chrome'' [(''app_name'', ''chrome'')])) = Inl (PyException ''handler failed'')
   \<and> process failing_env ''open chrome'' = Inl (PyException ''handler failed'')
   \<and> process_command failing_env ''open chrome'' =
        ([ProcessingStarted, Speak apology, ProcessingStopped], Inr ())
   \<and> command_after_wake (lower ''nova open chrome'') = Some ''open chrome''
   \<and> listen_continuously failing_env
        [\<lparr>stop_top = False, cap1 = Audio (Some ''nova open chrome''), stop1 = False,
          cap2 = NoAudio, stop2 = False, cap3 = NoAudio\<rparr>,
         \<lparr>stop_top = False, cap1 = NoAudio, stop1 = False,
          cap2 = NoAudio, stop2 = False, cap3 = NoAudio\<rparr>] =
        ([Listen None, ProcessingStarted, Speak apology, ProcessingStopped, Listen None, Listen None],
         False)
   \<and> process test_env ''open chrome'' = Inr ''ok''
   \<and> process_command test_env ''open chrome'' =
        ([ProcessingStarted, Speak ''ok'', ProcessingStopped], Inr ())"
proof -
  let ?m = "Match ''open chrome'' [(''app_name'', ''chrome'')]"
  let ?sc = "\<lparr>stop_top = False, cap1 = Audio (Some ''nova open chrome''), stop1 = False,
          cap2 = NoAudio, stop2 = False, cap3 = NoAudio\<rparr>"
  let ?sc2 = "\<lparr>stop_top = False, cap1 = NoAudio, stop1 = False,
          cap2 = NoAudio, stop2 = False, cap3 = NoAudio\<rparr>"
  let ?x = "PyException ''handler failed''"
  have a: "process_route ''open chrome'' = ToHandler App ''open chrome'' (Some ?m)"
    by code_simp
  have b: "command_handlers failing_env App ''open chrome'' (Some ?m) = Inl ?x"
    by (simp add: failing_env_def)
  have c: "command_after_wake (lower ''nova open chrome'') = Some ''open chrome''"
    by code_simp
  have d: "listen_continuously failing_env [?sc2] = ([Listen None, Listen None], False)"
    by (simp add: iteration_def detect_wake_word_and_command_def detect_wake_word_def
          listen_for_audio_def truthy_def)
  have e: "process test_env ''open chrome'' = Inr ''ok''"
    by (simp add: process_def a test_env_def)
  have f: "''ok'' \<noteq> []" by simp
  note T = handler_failure_is_spoken
      [of failing_env "''open chrome''" App "''open chrome''" "Some ?m" ?x _ ?sc
          "''nova open chrome''" "[?sc2]"]
  note T2 = handler_failure_is_spoken [of test_env "''open chrome''" _ _ _ _ "''ok''"]
  have p: "process failing_env ''open chrome'' = Inl ?x" using T a b by blast
  have pc: "process_command failing_env ''open chrome'' =
        ([ProcessingStarted, Speak apology, ProcessingStopped], Inr ())"
    using T p by blast
  have l: "listen_continuously failing_env [?sc, ?sc2] =
        ([Listen None, ProcessingStarted, Speak apology, ProcessingStopped]
           @ fst (listen_continuously failing_env [?sc2]),
         snd (listen_continuously failing_env [?sc2]))"
    using T p c by simp
  have pt: "process_command test_env ''open chrome'' =
        ([ProcessingStarted, Speak ''ok'', ProcessingStopped], Inr ())"
    using T2 e f by blast
  show ?thesis using a b p pc c l e pt unfolding d by simp
qed

lemma first_capture_has_no_timeout:
  "cap1 sc \<noteq> MicFailure \<Longrightarrow> \<exists>evs. iteration e sc = Listen None # evs"
  using detect_wake_word_and_command_events [of None "cap1 sc"]
  by (cases "cap1 sc")
     (auto simp: iteration_def detect_wake_word_and_command_def listen_for_audio_def
           split: prod.splits sum.splits option.splits)

text \<open>
  C5, as the code has it. When the stop flag reads as set at the top of the loop, the
  loop ends without another capture. Otherwise the pass starts with a capture that has no
  timeout. Every capture of a pass has either no timeout or the timeout of five seconds,
  and the one with five seconds is the follow-up capture for the command. When the flag
  is set during the first capture, a command heard there is dropped and the second
  capture, again without a timeout, is still made.
\<close>

theorem stop_read_at_loop_top:
  "(stop_top sc \<longrightarrow> listen_continuously e (sc # scs) = ([], True))
   \<and> (\<not> stop_top sc \<and> cap1 sc \<noteq> MicFailure \<longrightarrow>
        hd (fst (listen_continuously e (sc # scs))) = Listen None)
   \<and> (Listen t \<in> set (iteration e sc) \<longrightarrow> t = None \<or> t = Some 5)
   \<and> (cap3 sc \<noteq> MicFailure \<longrightarrow>
        take 4 (follow_up e sc) = [ListeningStarted, WakeAck, WakeAck, Listen (Some 5)])
   \<and> (cap1 sc = Audio (Some u) \<and> u \<noteq> [] \<and> command_after_wake (lower u) = Some command
        \<and> stop1 sc \<and> stop2 sc \<and> cap2 sc \<noteq> MicFailure \<longrightarrow>
        iteration e sc = [Listen None, Listen None])"
proof -
  have one: "stop_top sc \<longrightarrow> listen_continuously e (sc # scs) = ([], True)" by simp
  have two: "hd (fst (listen_continuously e (sc # scs))) = Listen None"
    if "\<not> stop_top sc" "cap1 sc \<noteq> MicFailure"
  proof -
    from first_capture_has_no_timeout [OF that(2)] obtain evs
      where "iteration e sc = Listen None # evs" by blast
    with that(1) show ?thesis by simp
  qed
  show ?thesis
    using one two iteration_listens [of t e sc] follow_up_capture [of sc e]
      iteration_command_dropped [of sc u command e]
    by blast
qed

theorem stop_read_at_loop_top_witness:
  "listen_continuously test_env
      [\<lparr>stop_top = True, cap1 = NoAudio, stop1 = True, cap2 = NoAudio, stop2 = True, cap3 = NoAudio\<rparr>]
     = ([], True)
   \<and> hd (fst (listen_continuously test_env
        [\<lparr>stop_top = False, cap1 = Audio (Some ''nova open chrome''), stop1 = True,
          cap2 = NoAudio, stop2 = True, cap3 = NoAudio\<rparr>])) = Listen None
   \<and> iteration test_env
        \<lparr>stop_top = False, cap1 = Audio (Some ''nova open chrome''), stop1 = True,
          cap2 = NoAudio, stop2 = True, cap3 = NoAudio\<rparr> = [Listen None, Listen None]
   \<and> take 4 (follow_up test_env
        \<lparr>stop_top = False, cap1 = NoAudio, stop1 = False,
          cap2 = Audio (Some ''nova''), stop2 = False, cap3 = NoAudio\<rparr>)
       = [ListeningStarted, WakeAck, WakeAck, Listen (Some 5)]"
proof -
  let ?s1 = "\<lparr>stop_top = True, cap1 = NoAudio, stop1 = True, cap2 = NoAudio, stop2 = True, cap3 = NoAudio\<rparr>"
  let ?s2 = "\<lparr>stop_top = False, cap1 = Audio (Some ''nova open chrome''), stop1 = True,
          cap2 = NoAudio, stop2 = True, cap3 = NoAudio\<rparr>"
  let ?s3 = "\<lparr>stop_top = False, cap1 = NoAudio, stop1 = False,
          cap2 = Audio (Some ''nova''), stop2 = False, cap3 = NoAudio\<rparr>"
  have c: "command_after_wake (lower ''nova open chrome'') = Some ''open chrome''"
    by code_simp
  have a: "listen_continuously test_env [?s1] = ([], True)"
    using stop_read_at_loop_top [of ?s1 test_env "[]"] by simp
  have b: "hd (fst (listen_continuously test_env [?s2])) = Listen None
           \<and> iteration test_env ?s2 = [Listen None, Listen None]"
    using stop_read_at_loop_top [of ?s2 test_env "[]" _ "''nova open chrome''" "''open chrome''"] c
    by simp
  have d: "take 4 (follow_up test_env ?s3) = [ListeningStarted, WakeAck, WakeAck, Listen (Some 5)]"
    using stop_read_at_loop_top [of ?s3 test_env] by simp
  show ?thesis using a b d by blast
qed

text \<open>
  Both wake captures of a pass are made with no timeout, the second one after the stop
  flag was set: not every capture has a finite timeout.
\<close>

theorem capture_timeout_counterexample:
  "listen_continuously test_env
      [\<lparr>stop_top = False, cap1 = Audio (Some ''nova open chrome''), stop1 = True,
        cap2 = NoAudio, stop2 = True, cap3 = NoAudio\<rparr>]
     = ([Listen None, Listen None], False)"
  by code_simp

text \<open>
  C6 says that the wake hook is called exactly once before the follow-up capture. In the
  code the follow-up branch calls the hook itself and then \<open>listen_for_command\<close> calls it
  again before capturing: every follow-up starts with two calls. When the first capture
  of the pass heard the wake word alone, \<open>detect_wake_word_and_command\<close> has called it
  once more, which makes three.
\<close>

theorem wake_acknowledged_twice:
  "take 3 (follow_up e sc) = [ListeningStarted, WakeAck, WakeAck]
   \<and> iteration test_env
        \<lparr>stop_top = False, cap1 = NoAudio, stop1 = False,
          cap2 = Audio (Some ''nova''), stop2 = False, cap3 = Audio (Some ''open chrome'')\<rparr>
      = [Listen None, Listen None, ListeningStarted, WakeAck, WakeAck, Listen (Some 5),
         ProcessingStarted, Speak ''ok'', ProcessingStopped, ListeningStopped]
   \<and> iteration test_env
        \<lparr>stop_top = False, cap1 = Audio (Some ''nova''), stop1 = False,
          cap2 = Audio (Some ''nova''), stop2 = False, cap3 = Audio (Some ''open chrome'')\<rparr>
      = [Listen None, WakeAck, Listen None, ListeningStarted, WakeAck, WakeAck, Listen (Some 5),
         ProcessingStarted, Speak ''ok'', ProcessingStopped, ListeningStopped]"
proof -
  have a: "iteration test_env
        \<lparr>stop_top = False, cap1 = NoAudio, stop1 = False,
          cap2 = Audio (Some ''nova''), stop2 = False, cap3 = Audio (Some ''open chrome'')\<rparr>
      = [Listen None, Listen None, ListeningStarted, WakeAck, WakeAck, Listen (Some 5),
         ProcessingStarted, Speak ''ok'', ProcessingStopped, ListeningStopped]"
    by code_simp
  have b: "iteration test_env
        \<lparr>stop_top = False, cap1 = Audio (Some ''nova''), stop1 = False,
          cap2 = Audio (Some ''nova''), stop2 = False, cap3 = Audio (Some ''open chrome'')\<rparr>
      = [Listen None, WakeAck, Listen None, ListeningStarted, WakeAck, WakeAck, Listen (Some 5),
         ProcessingStarted, Speak ''ok'', ProcessingStopped, ListeningStopped]"
    by code_simp
  show ?thesis using follow_up_start [of e sc] a b by simp
qed

section \<open>Properties of the response formatter\<close>

lemma join_snoc:
  "xs \<noteq> [] \<Longrightarrow> join sep (xs @ [y]) = join sep xs @ sep @ y"
  by (induction sep xs rule: join.induct) auto

lemma join_as_concat:
  "xs \<noteq> [] \<Longrightarrow> join sep xs @ sep = concat (map (\<lambda>x. x @ sep) xs)"
  by (induction sep xs rule: join.induct) auto

text \<open>
  C9. \<open>format_list_items\<close> returns the fixed sentence for an empty list, the intro, a
  space, the item and a full stop for a one-element list, and for a list \<open>xs @ [y]\<close> of
  two or more items the intro followed by every item but the last, each with a comma and
  a space after it, then \<open>and\<close>, the last item and a full stop; the list a, b, c gives
  "intro a, b, and c.".
\<close>

theorem format_list_items_shape:
  "format_list_items [] intro = ''I didn't find any items.''
   \<and> format_list_items [x] intro = intro @ '' '' @ x @ ''.''
   \<and> (xs \<noteq> [] \<longrightarrow>
        format_list_items (xs @ [y]) intro =
          intro @ '' '' @ concat (map (\<lambda>x. x @ '', '') xs) @ ''and '' @ y @ ''.'')
   \<and> format_list_items [''a'', ''b'', ''c''] intro = intro @ '' a, b, and c.''"
proof -
  have three: "xs \<noteq> [] \<longrightarrow>
        format_list_items (xs @ [y]) intro =
          intro @ '' '' @ concat (map (\<lambda>x. x @ '', '') xs) @ ''and '' @ y @ ''.''"
  proof
    assume ne: "xs \<noteq> []"
    then have len: "length (xs @ [y]) \<noteq> 1" by (cases xs) auto
    have "join '', '' xs @ '', and '' @ y = (join '', '' xs @ '', '') @ ''and '' @ y"
      by simp
    also have "\<dots> = concat (map (\<lambda>x. x @ '', '') xs) @ ''and '' @ y"
      using join_as_concat [OF ne, of "'', ''"] by simp
    finally show "format_list_items (xs @ [y]) intro =
          intro @ '' '' @ concat (map (\<lambda>x. x @ '', '') xs) @ ''and '' @ y @ ''.''"
      using len by (simp add: format_list_items_def)
  qed
  have four: "format_list_items [''a'', ''b'', ''c''] intro = intro @ '' a, b, and c.''"
    by (simp add: format_list_items_def)
  show ?thesis using three four by (simp add: format_list_items_def)
qed

theorem format_list_items_shape_witness:
  "[''x'', ''y''] \<noteq> [] \<and>
   format_list_items ([''x'', ''y''] @ [''z'']) default_intro = ''Here's what I found: x, y, and z.''"
  using format_list_items_shape [of default_intro "''q''" "[''x'', ''y'']" "''z''"]
  by (simp add: default_intro_def)

end
